theory Spec2Isabelle
  imports Complex_Main "HOL-Library.Log_Nat"
begin

section \<open>The chaos module of snippy (src/chaos.py)\<close>

text \<open>
  The module reads three environment variables on every call and, when enabled, either
  raises a \<open>ChaosException\<close> or sleeps for a random time. The model makes every effect of
  \<open>inject_chaos_if_enabled\<close> explicit: the environment is a map from names to strings, the
  random generator is a state that is passed through, calls of \<open>logger.warning\<close> and of
  \<open>asyncio.sleep\<close> are recorded in order in a list of events, and an exception is the
  \<open>Inl\<close> result of a sum.

  Strings are lists of 8-bit characters, read as the code points below 256.
\<close>

subsection \<open>Python values\<close>

text \<open>
  A Python float is an IEEE binary64 number. \<open>Finite q\<close> is the number whose exact value is
  the rational \<open>q\<close> (positive zero for \<open>q = 0\<close>); negative zero is a value of its own.
\<close>

datatype pyfloat = Finite rat | NegZero | PosInf | NegInf | NaN

datatype exn = ValueError | OverflowError | ChaosException string

datatype pyval =
    PyBool bool
  | PyFloat pyfloat
  | PyInt int
  | PyStr string
  | PyDict "(string \<times> pyval) list"

subsection \<open>Characters and \<open>str\<close> methods\<close>

definition is_digit :: "char \<Rightarrow> bool" where
  "is_digit c \<longleftrightarrow> 48 \<le> (of_char c :: nat) \<and> (of_char c :: nat) \<le> 57"

text \<open>
  The white space that \<open>int\<close> and \<open>float\<close> skip at both ends of a string: tab, line feed,
  vertical tab, form feed, carriage return, space, and of the code points from 128 to 255
  the two that are Unicode white space (next line and no-break space).
\<close>

definition is_space :: "char \<Rightarrow> bool" where
  "is_space c \<longleftrightarrow> (of_char c :: nat) \<in> {9, 10, 11, 12, 13, 32, 133, 160}"

text \<open>
  \<open>str.lower\<close> on one code point below 256: the letters A to Z, and the capital letters
  of the Latin-1 block (192 to 222 without the multiplication sign 215), move up by 32.
\<close>

definition lower_char :: "char \<Rightarrow> char" where
  "lower_char c =
     (let n = (of_char c :: nat)
      in if (65 \<le> n \<and> n \<le> 90) \<or> (192 \<le> n \<and> n \<le> 222 \<and> n \<noteq> 215)
         then char_of (n + 32) else c)"

definition lower :: "string \<Rightarrow> string" where
  "lower s = map lower_char s"

definition strip :: "string \<Rightarrow> string" where
  "strip s = dropWhile is_space (rev (dropWhile is_space (rev s)))"

subsection \<open>The conversions \<open>int(str)\<close> and \<open>float(str)\<close>\<close>

text \<open>
  Both follow the grammar of the language reference. A digit part is one or more digits,
  with single underscores allowed between two digits:
  \<^verbatim>\<open>digitpart ::= digit (["_"] digit)*\<close>
\<close>

fun digitpart :: "string \<Rightarrow> bool" where
  "digitpart [] = False"
| "digitpart [c] = is_digit c"
| "digitpart (c # d # cs) =
     (is_digit c \<and> (if d = CHR ''_'' then cs \<noteq> [] \<and> digitpart cs else digitpart (d # cs)))"

definition digits_value :: "string \<Rightarrow> nat" where
  "digits_value s = foldl (\<lambda>a c. 10 * a + (of_char c - 48)) 0 (filter is_digit s)"

definition split_sign :: "string \<Rightarrow> bool \<times> string" where
  "split_sign s =
     (case s of
        [] \<Rightarrow> (False, [])
      | c # cs \<Rightarrow>
          if c = CHR ''-'' then (True, cs)
          else if c = CHR ''+'' then (False, cs)
          else (False, s))"

text \<open>
  \<open>int(s)\<close> with the default base 10: white space at both ends is skipped, then an
  optional sign and a digit part must make up the whole string. Anything else raises
  \<open>ValueError\<close>. Python's integers are unbounded.
\<close>

definition py_int :: "string \<Rightarrow> exn + int" where
  "py_int s =
     (let (neg, body) = split_sign (strip s)
      in if digitpart body
         then Inr (if neg then - int (digits_value body) else int (digits_value body))
         else Inl ValueError)"

text \<open>
  Rounding to binary64, to nearest with ties to even. For \<open>x > 0\<close>, \<open>ilog2 x\<close> is the
  exponent \<open>e\<close> with \<open>2^e \<le> x < 2^(e+1)\<close>. A double in that binade is a multiple of
  \<open>2^(e - 52)\<close>; below \<open>2^(-1022)\<close> the spacing stays \<open>2^(-1074)\<close> (subnormal numbers).
  \<open>nearest_double x\<close> rounds a magnitude with the exponent range unbounded above; a result
  of \<open>2^1024\<close> or more is an overflow.
\<close>

definition round_half_even :: "rat \<Rightarrow> int" where
  "round_half_even x =
     (let n = \<lfloor>x\<rfloor>; f = x - of_int n
      in if f < 1 / 2 then n
         else if 1 / 2 < f then n + 1
         else if even n then n else n + 1)"

definition ilog2 :: "rat \<Rightarrow> int" where
  "ilog2 x =
     (let (a, b) = quotient_of x; d = bitlen a - bitlen b
      in if x < 2 powi d then d - 1 else d)"

definition ulp_exponent :: "rat \<Rightarrow> int" where
  "ulp_exponent x = max (ilog2 x) (- 1022) - 52"

definition mantissa :: "rat \<Rightarrow> int" where
  "mantissa x = round_half_even (x / 2 powi ulp_exponent x)"

definition nearest_double :: "rat \<Rightarrow> rat" where
  "nearest_double x = (if x = 0 then 0 else of_int (mantissa x) * 2 powi ulp_exponent x)"

definition overflows :: "rat \<Rightarrow> bool" where
  "overflows y \<longleftrightarrow> 2 powi 1024 \<le> y"

text \<open>
  The double for a sign and a magnitude \<open>m \<ge> 0\<close>, as the conversion of a decimal string
  and the arithmetic operations produce it: overflow gives an infinity, a zero keeps the
  sign.
\<close>

definition round_to_float :: "bool \<Rightarrow> rat \<Rightarrow> pyfloat" where
  "round_to_float neg m =
     (let y = nearest_double m
      in if overflows y then (if neg then NegInf else PosInf)
         else if y = 0 then (if neg then NegZero else Finite 0)
         else Finite (if neg then - y else y))"

text \<open>
  The number part of \<open>float(s)\<close>:
  \<^verbatim>\<open>number      ::= [digitpart] "." digitpart | digitpart ["."]\<close>
  \<^verbatim>\<open>exponent    ::= ("e" | "E") [sign] digitpart\<close>
  \<^verbatim>\<open>floatnumber ::= number [exponent]\<close>
  The functions return the exact decimal value, or \<open>None\<close> when the text is malformed.
\<close>

definition number :: "string \<Rightarrow> rat option" where
  "number s =
     (let ip = takeWhile (\<lambda>c. c \<noteq> CHR ''.'') s;
          rest = dropWhile (\<lambda>c. c \<noteq> CHR ''.'') s
      in if rest = [] then
           (if digitpart ip then Some (of_nat (digits_value ip)) else None)
         else
           (let fp = tl rest
            in if (ip = [] \<or> digitpart ip) \<and> (fp = [] \<or> digitpart fp) \<and> \<not> (ip = [] \<and> fp = [])
               then Some (of_nat (digits_value ip)
                          + of_nat (digits_value fp) / 10 ^ length (filter is_digit fp))
               else None))"

definition exponent :: "string \<Rightarrow> int option" where
  "exponent s =
     (let (neg, ds) = split_sign s
      in if digitpart ds
         then Some (if neg then - int (digits_value ds) else int (digits_value ds))
         else None)"

definition is_e :: "char \<Rightarrow> bool" where
  "is_e c \<longleftrightarrow> c = CHR ''e'' \<or> c = CHR ''E''"

definition floatnumber :: "string \<Rightarrow> rat option" where
  "floatnumber s =
     (let m = takeWhile (\<lambda>c. \<not> is_e c) s; rest = dropWhile (\<lambda>c. \<not> is_e c) s
      in case number m of
           None \<Rightarrow> None
         | Some q \<Rightarrow>
             if rest = [] then Some q
             else (case exponent (tl rest) of
                     None \<Rightarrow> None
                   | Some x \<Rightarrow> Some (q * 10 powi x)))"

text \<open>
  \<open>float(s)\<close>: white space at both ends is skipped; after an optional sign come
  \<open>inf\<close>, \<open>infinity\<close> or \<open>nan\<close> in any case, or a float number, which is rounded to the
  nearest double. Anything else raises \<open>ValueError\<close>.
\<close>

definition py_float :: "string \<Rightarrow> exn + pyfloat" where
  "py_float s =
     (let (neg, body) = split_sign (strip s)
      in if lower body = ''inf'' \<or> lower body = ''infinity''
         then Inr (if neg then NegInf else PosInf)
         else if lower body = ''nan'' then Inr NaN
         else (case floatnumber body of
                 None \<Rightarrow> Inl ValueError
               | Some q \<Rightarrow> Inr (round_to_float neg q)))"

subsection \<open>Float arithmetic and comparison\<close>

text \<open>
  Converting an integer to a float (as \<open>int * float\<close> and \<open>int + float\<close> do with their
  integer operand) rounds to the nearest double and raises \<open>OverflowError\<close> when the
  integer is too large.
\<close>

definition float_of_int :: "int \<Rightarrow> exn + pyfloat" where
  "float_of_int n =
     (let y = nearest_double (of_int \<bar>n\<bar>)
      in if overflows y then Inl OverflowError
         else Inr (Finite (if n < 0 then - y else y)))"

definition is_negative :: "pyfloat \<Rightarrow> bool" where
  "is_negative x =
     (case x of Finite q \<Rightarrow> q < 0 | NegZero \<Rightarrow> True | NegInf \<Rightarrow> True | PosInf \<Rightarrow> False
      | NaN \<Rightarrow> False)"

text \<open>The value of a finite float; \<open>None\<close> for the infinities and NaN.\<close>

definition finite_value :: "pyfloat \<Rightarrow> rat option" where
  "finite_value x =
     (case x of Finite q \<Rightarrow> Some q | NegZero \<Rightarrow> Some 0 | _ \<Rightarrow> None)"

text \<open>\<open>x < y\<close> on floats: false whenever an operand is NaN; the two zeros are equal.\<close>

definition float_lt :: "pyfloat \<Rightarrow> pyfloat \<Rightarrow> bool" where
  "float_lt x y =
     (if x = NaN \<or> y = NaN then False
      else if x = PosInf \<or> y = NegInf then False
      else if x = NegInf \<or> y = PosInf then True
      else the (finite_value x) < the (finite_value y))"

definition float_mul :: "pyfloat \<Rightarrow> pyfloat \<Rightarrow> pyfloat" where
  "float_mul x y =
     (let neg = (is_negative x \<noteq> is_negative y)
      in if x = NaN \<or> y = NaN then NaN
         else (case (finite_value x, finite_value y) of
                 (Some a, Some b) \<Rightarrow> round_to_float neg (\<bar>a\<bar> * \<bar>b\<bar>)
               | (Some a, None) \<Rightarrow> if a = 0 then NaN else if neg then NegInf else PosInf
               | (None, Some b) \<Rightarrow> if b = 0 then NaN else if neg then NegInf else PosInf
               | (None, None) \<Rightarrow> if neg then NegInf else PosInf))"

definition float_add :: "pyfloat \<Rightarrow> pyfloat \<Rightarrow> pyfloat" where
  "float_add x y =
     (if x = NaN \<or> y = NaN then NaN
      else (case (finite_value x, finite_value y) of
              (Some a, Some b) \<Rightarrow>
                if a + b = 0 then (if x = NegZero \<and> y = NegZero then NegZero else Finite 0)
                else round_to_float (a + b < 0) \<bar>a + b\<bar>
            | (Some a, None) \<Rightarrow> y
            | (None, Some b) \<Rightarrow> x
            | (None, None) \<Rightarrow> if x = y then x else NaN))"

subsection \<open>The random generator\<close>

text \<open>
  \<open>random.random()\<close> builds a 53-bit integer \<open>k\<close> from the generator's output and returns
  \<open>k / 2^53\<close>, a double in \<open>[0, 1)\<close>. The generator is modelled by the sequence of the
  integers it will produce, each read modulo \<open>2^53\<close>, and the number of them already drawn.
\<close>

record rng =
  outputs :: "nat \<Rightarrow> nat"
  drawn :: nat

definition random :: "rng \<Rightarrow> pyfloat \<times> rng" where
  "random g =
     (Finite (of_nat (outputs g (drawn g) mod 2 ^ 53) / 2 ^ 53), g\<lparr>drawn := drawn g + 1\<rparr>)"

text \<open>
  \<open>random.uniform(a, b)\<close> is \<open>a + (b - a) * self.random()\<close>, called by the module with
  two integers. The draw comes before the multiplication and the addition, each of which
  converts its integer operand to a float first.
\<close>

definition uniform :: "int \<Rightarrow> int \<Rightarrow> rng \<Rightarrow> (exn + pyfloat) \<times> rng" where
  "uniform a b g =
     (let (r, g') = random g
      in case float_of_int (b - a) of
           Inl e \<Rightarrow> (Inl e, g')
         | Inr w \<Rightarrow>
             (case float_of_int a of
                Inl e \<Rightarrow> (Inl e, g')
              | Inr a' \<Rightarrow> (Inr (float_add a' (float_mul w r)), g')))"

subsection \<open>Configuration\<close>

type_synonym environ = "string \<rightharpoonup> string"

definition environ_get :: "environ \<Rightarrow> string \<Rightarrow> string \<Rightarrow> string" where
  "environ_get env k d = (case env k of None \<Rightarrow> d | Some v \<Rightarrow> v)"

record chaos_config =
  chaos_enabled :: bool
  chaos_inject_error_rate :: pyfloat
  chaos_delay_seconds_max :: int

text \<open>
  The entries of the dictionary are evaluated in order, so a malformed error rate raises
  before the delay is looked at.
\<close>

definition get_chaos_config :: "environ \<Rightarrow> exn + chaos_config" where
  "get_chaos_config env =
     (let enabled = lower (environ_get env ''CHAOS_ENABLED'' ''false'')
                      \<in> {''true'', ''1'', ''yes''}
      in case py_float (environ_get env ''CHAOS_INJECT_ERROR_RATE'' ''0.1'') of
           Inl e \<Rightarrow> Inl e
         | Inr rate \<Rightarrow>
             (case py_int (environ_get env ''CHAOS_DELAY_SECONDS_MAX'' ''5'') of
                Inl e \<Rightarrow> Inl e
              | Inr delay \<Rightarrow>
                  Inr \<lparr>chaos_enabled = enabled, chaos_inject_error_rate = rate,
                       chaos_delay_seconds_max = delay\<rparr>))"

subsection \<open>Injection\<close>

text \<open>
  What a call does to the outside, in order: a call of \<open>logger.warning\<close> with its format
  string, its positional arguments and its \<open>extra\<close> dictionary, or a call of
  \<open>asyncio.sleep\<close> with its argument.
\<close>

datatype event =
    LogWarning string "pyval list" "(string \<times> pyval) list"
  | Sleep pyfloat

definition config_dict :: "chaos_config \<Rightarrow> pyval" where
  "config_dict c =
     PyDict [(''CHAOS_ENABLED'', PyBool (chaos_enabled c)),
             (''CHAOS_INJECT_ERROR_RATE'', PyFloat (chaos_inject_error_rate c)),
             (''CHAOS_DELAY_SECONDS_MAX'', PyInt (chaos_delay_seconds_max c))]"

definition error_message :: string where
  "error_message =
     ''CHAOS[error]: Injecting failure - probability=%.3f < error_rate=%.3f, ''
     @ ''env_values={CHAOS_ENABLED=%s, CHAOS_INJECT_ERROR_RATE=%.3f, CHAOS_DELAY_SECONDS_MAX=%d}''"

definition delay_message :: string where
  "delay_message =
     ''CHAOS[delay]: Injecting delay - delay_seconds=%.3f, probability=%.3f >= error_rate=%.3f, ''
     @ ''env_values={CHAOS_ENABLED=%s, CHAOS_INJECT_ERROR_RATE=%.3f, CHAOS_DELAY_SECONDS_MAX=%d}''"

definition error_log :: "chaos_config \<Rightarrow> pyfloat \<Rightarrow> event" where
  "error_log c p =
     LogWarning error_message
       [PyFloat p, PyFloat (chaos_inject_error_rate c), PyBool (chaos_enabled c),
        PyFloat (chaos_inject_error_rate c), PyInt (chaos_delay_seconds_max c)]
       [(''event_type'', PyStr ''error''),
        (''probability'', PyFloat p),
        (''error_rate'', PyFloat (chaos_inject_error_rate c)),
        (''chaos_config'', config_dict c)]"

definition delay_log :: "chaos_config \<Rightarrow> pyfloat \<Rightarrow> pyfloat \<Rightarrow> event" where
  "delay_log c p d =
     LogWarning delay_message
       [PyFloat d, PyFloat p, PyFloat (chaos_inject_error_rate c), PyBool (chaos_enabled c),
        PyFloat (chaos_inject_error_rate c), PyInt (chaos_delay_seconds_max c)]
       [(''event_type'', PyStr ''delay''),
        (''delay_seconds'', PyFloat d),
        (''probability'', PyFloat p),
        (''error_rate'', PyFloat (chaos_inject_error_rate c)),
        (''chaos_config'', config_dict c)]"

text \<open>
  The result of a call: the exception raised or the normal return, the generator after
  the call, and the events of the call in order.
\<close>

type_synonym result = "(exn + unit) \<times> rng \<times> event list"

definition inject_chaos_if_enabled :: "environ \<Rightarrow> rng \<Rightarrow> result" where
  "inject_chaos_if_enabled env g =
     (case get_chaos_config env of
        Inl e \<Rightarrow> (Inl e, g, [])
      | Inr config \<Rightarrow>
          if \<not> chaos_enabled config then (Inr (), g, [])
          else
            (let (probability, g1) = random g;
                 error_rate = chaos_inject_error_rate config;
                 max_delay = chaos_delay_seconds_max config
             in if float_lt probability error_rate then
                  (Inl (ChaosException ''Chaos engineering: simulated service failure''), g1,
                   [error_log config probability])
                else if max_delay > 0 then
                  (case uniform 0 max_delay g1 of
                     (Inl e, g2) \<Rightarrow> (Inl e, g2, [])
                   | (Inr delay_seconds, g2) \<Rightarrow>
                       (Inr (), g2,
                        [delay_log config probability delay_seconds, Sleep delay_seconds]))
                else (Inr (), g1, [])))"

text \<open>The arguments of \<open>asyncio.sleep\<close> and the log calls among the events of a call.\<close>

definition sleeps :: "event list \<Rightarrow> pyfloat list" where
  "sleeps evs = concat (map (\<lambda>e. case e of Sleep d \<Rightarrow> [d] | _ \<Rightarrow> []) evs)"

definition logs :: "event list \<Rightarrow> event list" where
  "logs evs = filter (\<lambda>e. case e of LogWarning _ _ _ \<Rightarrow> True | _ \<Rightarrow> False) evs"

subsection \<open>Example inputs\<close>

definition env_of :: "string \<Rightarrow> string \<Rightarrow> string \<Rightarrow> environ" where
  "env_of enabled rate delay =
     [''CHAOS_ENABLED'' \<mapsto> enabled, ''CHAOS_INJECT_ERROR_RATE'' \<mapsto> rate,
      ''CHAOS_DELAY_SECONDS_MAX'' \<mapsto> delay]"

definition rng_const :: "nat \<Rightarrow> rng" where
  "rng_const k = \<lparr>outputs = (\<lambda>_. k), drawn = 0\<rparr>"

section \<open>Properties\<close>

subsection \<open>Rounding to the nearest double\<close>

lemma round_half_even_of_int: "round_half_even (of_int n) = n"
  by (simp add: round_half_even_def)

lemma round_half_even_upper: "of_int (round_half_even x) \<le> x + 1 / 2"
  unfolding round_half_even_def Let_def
  by (auto simp: not_less) linarith+

lemma round_half_even_lower: "x - 1 / 2 \<le> of_int (round_half_even x)"
  unfolding round_half_even_def Let_def
  by (auto simp: not_less) linarith+

lemma round_half_even_mono:
  assumes "x \<le> y"
  shows "round_half_even x \<le> round_half_even y"
proof (cases "x = y")
  case True
  then show ?thesis by simp
next
  case False
  with assms have "x < y" by simp
  have "(of_int (round_half_even x) :: rat) \<le> x + 1 / 2"
    by (rule round_half_even_upper)
  also have "\<dots> < y + 1 / 2" using \<open>x < y\<close> by simp
  also have "\<dots> \<le> of_int (round_half_even y) + 1"
    using round_half_even_lower [of y] by simp
  finally have "(of_int (round_half_even x) :: rat) < of_int (round_half_even y + 1)"
    by simp
  then have "round_half_even x < round_half_even y + 1"
    by (simp only: of_int_less_iff)
  then show ?thesis by simp
qed

lemma powi_pos: "0 < (2::rat) powi e"
  by simp

lemma powi_mono: "a \<le> b \<Longrightarrow> (2::rat) powi a \<le> 2 powi b"
  by (simp add: power_int_increasing)

lemma powi_strict_mono: "a < b \<Longrightarrow> (2::rat) powi a < 2 powi b"
  by (simp add: power_int_strict_increasing)

lemma powi_add: "(2::rat) powi (a + b) = 2 powi a * 2 powi b"
  by (simp add: power_int_add)

lemma powi_diff: "(2::rat) powi (a - b) = 2 powi a / 2 powi b"
  by (simp add: power_int_diff)

lemma powi_less_imp: "(2::rat) powi a < 2 powi b \<Longrightarrow> a < b"
  using powi_mono [of b a] by (cases "a < b") auto

lemma bitlen_rat:
  assumes "0 < a"
  shows "(2::rat) powi (bitlen a - 1) \<le> of_int a" and "of_int a < (2::rat) powi (bitlen a)"
proof -
  have b: "2 ^ nat (bitlen a - 1) \<le> a" "a < 2 ^ nat (bitlen a)"
    using bitlen_bounds [OF assms] by auto
  have pos: "1 \<le> bitlen a"
    using assms by (simp add: bitlen_alt_def)
  have "(2::rat) powi (bitlen a - 1) = of_int (2 ^ nat (bitlen a - 1))"
    using pos by (simp add: power_int_nonneg_exp)
  also have "\<dots> \<le> of_int a" using b(1) by (simp only: of_int_le_iff)
  finally show "(2::rat) powi (bitlen a - 1) \<le> of_int a" .
  have "(of_int a :: rat) < of_int (2 ^ nat (bitlen a))"
    using b(2) by (simp only: of_int_less_iff)
  also have "\<dots> = (2::rat) powi (bitlen a)"
    using pos by (simp add: power_int_nonneg_exp)
  finally show "of_int a < (2::rat) powi (bitlen a)" .
qed

lemma ilog2_bounds:
  assumes "0 < x"
  shows "2 powi ilog2 x \<le> x" and "x < 2 powi (ilog2 x + 1)"
proof -
  obtain a b where q: "quotient_of x = (a, b)" by (cases "quotient_of x")
  then have x: "x = of_int a / of_int b" and b: "0 < b"
    by (auto dest: quotient_of_div quotient_of_denom_pos)
  have a: "0 < a"
    using assms x b by (simp add: zero_less_divide_iff)
  define d where "d = bitlen a - bitlen b"
  have lo: "(2::rat) powi (d - 1) \<le> x"
  proof -
    have "(2::rat) powi (d - 1) * of_int b \<le> 2 powi (d - 1) * 2 powi (bitlen b)"
      using bitlen_rat(2) [OF b] by (simp add: mult_left_mono)
    also have "\<dots> = 2 powi (bitlen a - 1)"
      by (simp add: d_def powi_add [symmetric])
    also have "\<dots> \<le> of_int a" by (rule bitlen_rat(1) [OF a])
    finally show ?thesis using b by (simp add: x pos_le_divide_eq)
  qed
  have hi: "x < (2::rat) powi (d + 1)"
  proof -
    have "of_int a < (2::rat) powi (bitlen a)" by (rule bitlen_rat(2) [OF a])
    also have "\<dots> = 2 powi (d + 1) * 2 powi (bitlen b - 1)"
      by (simp add: d_def powi_add [symmetric])
    also have "\<dots> \<le> 2 powi (d + 1) * of_int b"
      using bitlen_rat(1) [OF b] by (simp add: mult_left_mono)
    finally show ?thesis using b by (simp add: x pos_divide_less_eq)
  qed
  have e: "ilog2 x = (if x < 2 powi d then d - 1 else d)"
    by (simp add: ilog2_def q d_def Let_def)
  show "2 powi ilog2 x \<le> x" using lo by (simp add: e)
  show "x < 2 powi (ilog2 x + 1)" using hi by (simp add: e)
qed

lemma ilog2_unique:
  assumes "2 powi e \<le> x" "x < 2 powi (e + 1)"
  shows "ilog2 x = e"
proof -
  have pos: "0 < x" using assms(1) powi_pos [of e] by linarith
  have "(2::rat) powi e < 2 powi (ilog2 x + 1)"
    using assms(1) ilog2_bounds(2) [OF pos] by linarith
  then have 1: "e < ilog2 x + 1" by (rule powi_less_imp)
  have "(2::rat) powi ilog2 x < 2 powi (e + 1)"
    using assms(2) ilog2_bounds(1) [OF pos] by linarith
  then have 2: "ilog2 x < e + 1" by (rule powi_less_imp)
  from 1 2 show ?thesis by simp
qed

lemma ilog2_mono:
  assumes "0 < x" "x \<le> y"
  shows "ilog2 x \<le> ilog2 y"
proof -
  have "0 < y" using assms by simp
  have "(2::rat) powi ilog2 x < 2 powi (ilog2 y + 1)"
    using ilog2_bounds(1) [OF assms(1)] ilog2_bounds(2) [OF \<open>0 < y\<close>] assms(2) by linarith
  then have "ilog2 x < ilog2 y + 1" by (rule powi_less_imp)
  then show ?thesis by simp
qed

lemma ulp_exponent_mono: "0 < x \<Longrightarrow> x \<le> y \<Longrightarrow> ulp_exponent x \<le> ulp_exponent y"
  using ilog2_mono [of x y] by (simp add: ulp_exponent_def)

lemma ulp_exponent_ge: "- 1074 \<le> ulp_exponent x"
  by (simp add: ulp_exponent_def)

text \<open>The scaled value lies below \<open>2^53\<close>, and in a normal binade at or above \<open>2^52\<close>.\<close>

lemma scaled_less:
  assumes "0 < x"
  shows "x < 2 ^ 53 * 2 powi ulp_exponent x"
proof -
  have "x < 2 powi (ilog2 x + 1)" by (rule ilog2_bounds(2) [OF assms])
  also have "\<dots> \<le> 2 powi (53 + ulp_exponent x)"
    by (rule powi_mono) (simp add: ulp_exponent_def)
  also have "\<dots> = 2 ^ 53 * 2 powi ulp_exponent x"
    by (simp only: powi_add) simp
  finally show ?thesis .
qed

lemma scaled_ge:
  assumes "0 < x" "- 1022 \<le> ilog2 x"
  shows "2 ^ 52 * 2 powi ulp_exponent x \<le> x"
proof -
  have "2 ^ 52 * 2 powi ulp_exponent x = (2::rat) powi (52 + ulp_exponent x)"
    by (simp only: powi_add) simp
  also have "\<dots> = 2 powi ilog2 x"
    using assms(2) by (simp add: ulp_exponent_def)
  also have "\<dots> \<le> x" by (rule ilog2_bounds(1) [OF assms(1)])
  finally show ?thesis .
qed

lemma nearest_double_eq:
  "x \<noteq> 0 \<Longrightarrow> nearest_double x = of_int (mantissa x) * 2 powi ulp_exponent x"
  by (simp add: nearest_double_def)

lemma mantissa_le:
  assumes "0 < x"
  shows "mantissa x \<le> 2 ^ 53"
proof -
  have "x / 2 powi ulp_exponent x \<le> 2 ^ 53"
    using scaled_less [OF assms] by (simp add: pos_divide_le_eq)
  then have "round_half_even (x / 2 powi ulp_exponent x) \<le> round_half_even (2 ^ 53)"
    by (rule round_half_even_mono)
  also have "round_half_even (2 ^ 53) = 2 ^ 53"
    using round_half_even_of_int [of "2 ^ 53"] by simp
  finally show ?thesis by (simp add: mantissa_def)
qed

lemma mantissa_ge:
  assumes "0 < x" "- 1022 \<le> ilog2 x"
  shows "2 ^ 52 \<le> mantissa x"
proof -
  have "2 ^ 52 \<le> x / 2 powi ulp_exponent x"
    using scaled_ge [OF assms] by (simp add: pos_le_divide_eq)
  then have "round_half_even (2 ^ 52) \<le> round_half_even (x / 2 powi ulp_exponent x)"
    by (rule round_half_even_mono)
  moreover have "round_half_even (2 ^ 52) = 2 ^ 52"
    using round_half_even_of_int [of "2 ^ 52"] by simp
  ultimately show ?thesis by (simp add: mantissa_def)
qed

lemma mantissa_nonneg:
  assumes "0 < x"
  shows "0 \<le> mantissa x"
proof -
  have "0 \<le> x / 2 powi ulp_exponent x" using assms by simp
  then have "round_half_even 0 \<le> round_half_even (x / 2 powi ulp_exponent x)"
    by (rule round_half_even_mono)
  moreover have "round_half_even 0 = 0"
    using round_half_even_of_int [of 0] by simp
  ultimately show ?thesis by (simp add: mantissa_def)
qed

lemma nearest_double_nonneg: "0 \<le> x \<Longrightarrow> 0 \<le> nearest_double x"
  using mantissa_nonneg [of x] by (cases "x = 0") (simp_all add: nearest_double_def)

lemma scale_exact:
  "E = U + int k \<Longrightarrow> of_int n * 2 powi E / 2 powi U = (of_int (n * 2 ^ k) :: rat)"
  by (simp add: powi_add)

text \<open>A multiple \<open>n * 2^E\<close> with \<open>0 < n < 2^53\<close> and \<open>E \<ge> -1074\<close> is a double: rounding keeps it.\<close>

lemma nearest_double_representable:
  assumes "0 < n" "n < 2 ^ 53" "- 1074 \<le> E"
  shows "nearest_double (of_int n * 2 powi E) = of_int n * 2 powi E"
proof -
  let ?v = "of_int n * 2 powi E :: rat"
  have pos: "0 < ?v" using assms(1) by simp
  have "(of_int n :: rat) < of_int (2 ^ 53)" using assms(2) by (simp only: of_int_less_iff)
  then have "?v < 2 ^ 53 * 2 powi E" by simp
  also have "\<dots> = 2 powi (53 + E)" by (simp only: powi_add) simp
  finally have "?v < 2 powi (53 + E)" .
  then have "(2::rat) powi ilog2 ?v < 2 powi (53 + E)"
    using ilog2_bounds(1) [OF pos] by linarith
  then have "ilog2 ?v < 53 + E" by (rule powi_less_imp)
  then have le: "ulp_exponent ?v \<le> E"
    using assms(3) by (simp add: ulp_exponent_def)
  define k where "k = nat (E - ulp_exponent ?v)"
  have E: "E = ulp_exponent ?v + int k" using le by (simp add: k_def)
  have sc: "?v / 2 powi ulp_exponent ?v = of_int (n * 2 ^ k)"
    by (rule scale_exact [OF E])
  have m: "mantissa ?v = n * 2 ^ k"
    unfolding mantissa_def sc by (rule round_half_even_of_int)
  have "nearest_double ?v = of_int (mantissa ?v) * 2 powi ulp_exponent ?v"
    by (rule nearest_double_eq) (use assms(1) in simp)
  also have "\<dots> = of_int (n * 2 ^ k) * 2 powi ulp_exponent ?v"
    by (simp only: m)
  also have "\<dots> = ?v / 2 powi ulp_exponent ?v * 2 powi ulp_exponent ?v"
    by (simp only: sc)
  also have "\<dots> = ?v" by simp
  finally show ?thesis .
qed

lemma nearest_double_zero: "nearest_double 0 = 0"
  by (simp add: nearest_double_def)

lemma nearest_double_representable_le:
  assumes "0 \<le> n" "n \<le> 2 ^ 53" "- 1074 \<le> E"
  shows "nearest_double (of_int n * 2 powi E) = of_int n * 2 powi E"
proof -
  consider "n = 0" | "0 < n" "n < 2 ^ 53" | "n = 2 ^ 53"
    using assms(1,2) by linarith
  then show ?thesis
  proof cases
    case 1
    then show ?thesis by (simp add: nearest_double_zero)
  next
    case 2
    then show ?thesis using assms(3) by (rule nearest_double_representable)
  next
    case 3
    have "(of_int n :: rat) * 2 powi E = of_int (2 ^ 52) * 2 powi (E + 1)"
      by (simp only: powi_add 3) simp
    moreover have "nearest_double (of_int (2 ^ 52) * 2 powi (E + 1)) = of_int (2 ^ 52) * 2 powi (E + 1)"
      by (rule nearest_double_representable) (use assms(3) in simp_all)
    ultimately show ?thesis by simp
  qed
qed

lemma nearest_double_idem:
  assumes "0 \<le> x"
  shows "nearest_double (nearest_double x) = nearest_double x"
proof (cases "x = 0")
  case True
  then show ?thesis by (simp add: nearest_double_zero)
next
  case False
  with assms have pos: "0 < x" by simp
  have eq: "nearest_double x = of_int (mantissa x) * 2 powi ulp_exponent x"
    by (rule nearest_double_eq [OF False])
  show ?thesis
    unfolding eq
    by (rule nearest_double_representable_le
        [OF mantissa_nonneg [OF pos] mantissa_le [OF pos] ulp_exponent_ge])
qed

lemma nearest_double_mono:
  assumes "0 \<le> x" "x \<le> y"
  shows "nearest_double x \<le> nearest_double y"
proof (cases "x = 0")
  case True
  then show ?thesis
    using nearest_double_nonneg [of y] assms by (simp add: nearest_double_zero)
next
  case False
  with assms have px: "0 < x" and py: "0 < y" by simp_all
  have ex: "nearest_double x = of_int (mantissa x) * 2 powi ulp_exponent x"
    by (rule nearest_double_eq [OF False])
  have ey: "nearest_double y = of_int (mantissa y) * 2 powi ulp_exponent y"
    by (rule nearest_double_eq) (use py in simp)
  have le: "ulp_exponent x \<le> ulp_exponent y"
    by (rule ulp_exponent_mono [OF px assms(2)])
  show ?thesis
  proof (cases "ulp_exponent x = ulp_exponent y")
    case True
    have "x / 2 powi ulp_exponent y \<le> y / 2 powi ulp_exponent y"
      using assms(2) by (simp add: divide_right_mono)
    then have "mantissa x \<le> mantissa y"
      unfolding mantissa_def True by (rule round_half_even_mono)
    then have "(of_int (mantissa x) :: rat) \<le> of_int (mantissa y)"
      by (simp only: of_int_le_iff)
    then show ?thesis
      unfolding ex ey True by (simp add: mult_right_mono)
  next
    case False
    with le have lt: "ulp_exponent x < ulp_exponent y" by simp
    have "- 1074 \<le> ulp_exponent x" by (rule ulp_exponent_ge)
    with lt have normal: "- 1022 \<le> ilog2 y"
      by (simp add: ulp_exponent_def max_def split: if_splits)
    have "(of_int (mantissa x) :: rat) \<le> of_int (2 ^ 53)"
      using mantissa_le [OF px] by (simp only: of_int_le_iff)
    then have "nearest_double x \<le> 2 ^ 53 * 2 powi ulp_exponent x"
      unfolding ex by (simp add: mult_right_mono)
    also have "\<dots> = 2 powi (53 + ulp_exponent x)"
      by (simp only: powi_add) simp
    also have "\<dots> \<le> 2 powi (52 + ulp_exponent y)"
      by (rule powi_mono) (use lt in simp)
    also have "\<dots> = 2 ^ 52 * 2 powi ulp_exponent y"
      by (simp only: powi_add) simp
    also have "\<dots> \<le> nearest_double y"
    proof -
      have "(of_int (2 ^ 52) :: rat) \<le> of_int (mantissa y)"
        using mantissa_ge [OF py normal] by (simp only: of_int_le_iff)
      then show ?thesis unfolding ey by (simp add: mult_right_mono)
    qed
    finally show ?thesis .
  qed
qed

lemma scale_exact_neg:
  "E + int k = 0 \<Longrightarrow> of_int n / 2 powi E = (of_int (n * 2 ^ k) :: rat)"
proof -
  assume "E + int k = 0"
  then have "E = - int k" by simp
  then show ?thesis by (simp add: power_int_minus field_simps)
qed

text \<open>An integer whose unit in the last place is at most 1 is a double.\<close>

lemma nearest_double_int_exact:
  assumes "0 < D" "ulp_exponent (of_int D) \<le> 0"
  shows "nearest_double (of_int D) = of_int D"
proof -
  let ?E = "ulp_exponent (of_int D)"
  define k where "k = nat (- ?E)"
  have k: "?E + int k = 0" using assms(2) by (simp add: k_def)
  have sc: "of_int D / 2 powi ?E = (of_int (D * 2 ^ k) :: rat)"
    by (rule scale_exact_neg [OF k])
  have m: "mantissa (of_int D) = D * 2 ^ k"
    unfolding mantissa_def sc by (rule round_half_even_of_int)
  have "nearest_double (of_int D) = of_int (mantissa (of_int D)) * 2 powi ?E"
    by (rule nearest_double_eq) (use assms(1) in simp)
  also have "\<dots> = of_int D / 2 powi ?E * 2 powi ?E"
    by (simp only: m sc)
  also have "\<dots> = of_int D" by simp
  finally show ?thesis .
qed

text \<open>
  The product of the double nearest to a positive integer \<open>D\<close> and a sample
  \<open>r \<le> 1 - 2^(-53)\<close> rounds to a double that is at most \<open>D\<close>, also when the conversion of
  \<open>D\<close> has rounded up.
\<close>

lemma product_le_int:
  assumes D: "0 < D" and r: "0 \<le> r" "r \<le> 1 - 1 / 2 ^ 53"
  shows "nearest_double (nearest_double (of_int D) * r) \<le> of_int D"
proof -
  let ?D = "of_int D :: rat"
  let ?F = "nearest_double ?D"
  have Dpos: "0 < ?D" using D by simp
  have Fnn: "0 \<le> ?F" by (rule nearest_double_nonneg) (use D in simp)
  have xnn: "0 \<le> ?F * r" using Fnn r(1) by simp
  have r1: "r \<le> 1" using r(2) by simp
  have xF: "?F * r \<le> ?F" using Fnn r1 by (simp add: mult_left_le)
  show ?thesis
  proof (cases "?F \<le> ?D")
    case True
    have "nearest_double (?F * r) \<le> nearest_double ?F"
      by (rule nearest_double_mono [OF xnn xF])
    also have "\<dots> = ?F" by (rule nearest_double_idem) (use D in simp)
    finally show ?thesis using True by simp
  next
    case False
    then have up: "?D < ?F" by simp
    define E where "E = ulp_exponent ?D"
    define u where "u = (2::rat) powi E"
    define m where "m = mantissa ?D"
    have upos: "0 < u" by (simp add: u_def)
    have F: "?F = of_int m * u"
      unfolding m_def u_def E_def by (rule nearest_double_eq) (use D in simp)
    have E1: "1 \<le> E"
    proof (rule ccontr)
      assume "\<not> 1 \<le> E"
      then have "ulp_exponent ?D \<le> 0" by (simp add: E_def)
      from nearest_double_int_exact [OF D this] up show False by simp
    qed
    then have e: "ilog2 ?D = E + 52"
      by (simp add: E_def ulp_exponent_def max_def split: if_splits)
    have lo: "2 ^ 52 * u \<le> ?D"
      unfolding u_def E_def by (rule scaled_ge [OF Dpos]) (use e E1 in simp)
    have "2 ^ 52 * u < of_int m * u" using lo up F by simp
    then have "(of_int (2 ^ 52) :: rat) < of_int m" using upos by simp
    then have m_lo: "2 ^ 52 < m" by (simp only: of_int_less_iff)
    have m_hi: "m \<le> 2 ^ 53" unfolding m_def by (rule mantissa_le [OF Dpos])
    define G where "G = of_int (m - 1) * u"
    have Gfix: "nearest_double G = G"
      unfolding G_def u_def
      by (rule nearest_double_representable) (use m_lo m_hi E1 in simp_all)
    have "of_int m \<le> ?D / u + 1 / 2"
      unfolding m_def mantissa_def u_def E_def by (rule round_half_even_upper)
    then have "of_int m * u \<le> (?D / u + 1 / 2) * u"
      using upos by (simp only: mult_le_cancel_right_pos)
    also have "\<dots> = ?D + u / 2" using upos by (simp add: field_simps)
    finally have Fup: "of_int m * u \<le> ?D + u / 2" .
    have GD: "G \<le> ?D"
      using Fup upos by (simp add: G_def algebra_simps)
    have Gpos: "0 \<le> G" using m_lo upos by (simp add: G_def)
    have "?F * r \<le> ?F * (1 - 1 / 2 ^ 53)"
      using Fnn r(2) by (rule mult_left_mono [rotated])
    also have "\<dots> = of_int m * u - of_int m * u / 2 ^ 53"
      by (simp add: F algebra_simps)
    also have "\<dots> < of_int m * u - u / 2"
    proof -
      have "(of_int (2 ^ 52) :: rat) < of_int m" using m_lo by (simp only: of_int_less_iff)
      then have "2 ^ 52 * u < of_int m * u" using upos by simp
      then have "2 ^ 52 * u / 2 ^ 53 < of_int m * u / 2 ^ 53"
        by (simp only: divide_strict_right_mono zero_less_power zero_less_numeral)
      moreover have "2 ^ 52 * u / 2 ^ 53 = u / 2" by simp
      ultimately have "u / 2 < of_int m * u / 2 ^ 53" by simp
      then show ?thesis by linarith
    qed
    also have "\<dots> = G + u / 2" by (simp add: G_def algebra_simps)
    finally have xlt: "?F * r < G + u / 2" .
    have "nearest_double (?F * r) \<le> G"
    proof (cases "?F * r \<le> G")
      case True
      have "nearest_double (?F * r) \<le> nearest_double G"
        by (rule nearest_double_mono [OF xnn True])
      then show ?thesis by (simp only: Gfix)
    next
      case False
      then have Gx: "G < ?F * r" by simp
      have xpos: "0 < ?F * r" using Gpos Gx by simp
      then have xne: "?F * r \<noteq> 0" by linarith
      have "(2::rat) powi (E + 52) = 2 ^ 52 * u"
        unfolding u_def by (simp only: powi_add) simp
      also have "\<dots> \<le> G"
      proof -
        have "2 ^ 52 \<le> m - 1" using m_lo by simp
        then have "(of_int (2 ^ 52) :: rat) \<le> of_int (m - 1)"
          by (simp only: of_int_le_iff)
        then show ?thesis unfolding G_def using upos by simp
      qed
      finally have b1: "(2::rat) powi (E + 52) \<le> ?F * r" using Gx by simp
      have "(of_int m :: rat) \<le> of_int (2 ^ 53)" using m_hi by (simp only: of_int_le_iff)
      then have "?F \<le> 2 ^ 53 * u" unfolding F using upos by simp
      also have "\<dots> = 2 powi (E + 52 + 1)"
        unfolding u_def by (simp only: powi_add) simp
      finally have "?F \<le> 2 powi (E + 52 + 1)" .
      moreover have "?F * r < ?F"
      proof -
        have "G + u / 2 = ?F - u / 2" by (simp add: F G_def algebra_simps)
        then show ?thesis using xlt upos by linarith
      qed
      ultimately have b2: "?F * r < 2 powi (E + 52 + 1)" by simp
      have "ilog2 (?F * r) = E + 52" by (rule ilog2_unique [OF b1 b2])
      then have Ex: "ulp_exponent (?F * r) = E"
        using E1 by (simp add: ulp_exponent_def)
      have "of_int (mantissa (?F * r)) \<le> ?F * r / u + 1 / 2"
        unfolding mantissa_def Ex u_def by (rule round_half_even_upper)
      also have "\<dots> < (G + u / 2) / u + 1 / 2"
        using xlt upos by (simp add: divide_strict_right_mono)
      also have "\<dots> = of_int m"
        using upos by (simp add: G_def field_simps)
      finally have "mantissa (?F * r) < m" by (simp only: of_int_less_iff)
      then have "mantissa (?F * r) \<le> m - 1" by simp
      then have "(of_int (mantissa (?F * r)) :: rat) \<le> of_int (m - 1)"
        by (simp only: of_int_le_iff)
      then have "of_int (mantissa (?F * r)) * u \<le> G"
        unfolding G_def using upos by (simp only: mult_le_cancel_right_pos)
      moreover have "nearest_double (?F * r) = of_int (mantissa (?F * r)) * u"
        unfolding u_def Ex [symmetric] by (rule nearest_double_eq [OF xne])
      ultimately show ?thesis by simp
    qed
    then show ?thesis using GD by simp
  qed
qed

lemma product_le_double:
  assumes "0 < D" "0 \<le> r" "r \<le> 1"
  shows "nearest_double (nearest_double (of_int D) * r) \<le> nearest_double (of_int D)"
proof -
  let ?F = "nearest_double (of_int D)"
  have Fnn: "0 \<le> ?F" by (rule nearest_double_nonneg) (use assms(1) in simp)
  have "nearest_double (?F * r) \<le> nearest_double ?F"
    by (rule nearest_double_mono) (use Fnn assms in \<open>simp_all add: mult_left_le\<close>)
  also have "\<dots> = ?F" by (rule nearest_double_idem) (use assms(1) in simp)
  finally show ?thesis .
qed

subsection \<open>Helper facts\<close>

lemma random_range:
  "\<exists>p. random g = (Finite p, g\<lparr>drawn := drawn g + 1\<rparr>) \<and> 0 \<le> p \<and> p < 1"
proof -
  let ?k = "outputs g (drawn g) mod 2 ^ 53"
  have "?k < 2 ^ 53" by simp
  then have "(of_nat ?k :: rat) < of_nat (2 ^ 53)" by (simp only: of_nat_less_iff)
  then have "(of_nat ?k :: rat) / 2 ^ 53 < 1" by simp
  moreover have "0 \<le> (of_nat ?k :: rat) / 2 ^ 53" by simp
  ultimately show ?thesis unfolding random_def by blast
qed

lemma float_lt_Finite: "float_lt (Finite p) (Finite q) \<longleftrightarrow> p < q"
  by (simp add: float_lt_def finite_value_def)

lemma float_lt_above_one:
  "float_lt (Finite 1) r \<Longrightarrow> p < 1 \<Longrightarrow> float_lt (Finite p) r"
  by (cases r) (auto simp: float_lt_def finite_value_def)

lemma float_lt_below_zero:
  "float_lt r (Finite 0) \<Longrightarrow> 0 \<le> p \<Longrightarrow> \<not> float_lt (Finite p) r"
  by (cases r) (auto simp: float_lt_def finite_value_def)

lemma py_float_error: "py_float s = Inl e \<Longrightarrow> e = ValueError"
  by (auto simp: py_float_def Let_def split: prod.splits if_splits option.splits)

lemma py_int_error: "py_int s = Inl e \<Longrightarrow> e = ValueError"
  by (auto simp: py_int_def Let_def split: prod.splits if_splits)

text \<open>The body of \<open>inject_chaos_if_enabled\<close> after the early return, for a known draw.\<close>

lemma inject_enabled:
  assumes "get_chaos_config env = Inr cfg" "chaos_enabled cfg"
    and "random g = (Finite p, g1)"
  shows "inject_chaos_if_enabled env g =
     (if float_lt (Finite p) (chaos_inject_error_rate cfg) then
        (Inl (ChaosException ''Chaos engineering: simulated service failure''), g1,
         [error_log cfg (Finite p)])
      else if chaos_delay_seconds_max cfg > 0 then
        (case uniform 0 (chaos_delay_seconds_max cfg) g1 of
           (Inl e, g2) \<Rightarrow> (Inl e, g2, [])
         | (Inr d, g2) \<Rightarrow> (Inr (), g2, [delay_log cfg (Finite p) d, Sleep d]))
      else (Inr (), g1, []))"
  using assms by (simp add: inject_chaos_if_enabled_def)

text \<open>The configurations of the example environments.\<close>

lemma config_disabled:
  "get_chaos_config (env_of ''false'' ''1.0'' ''10'') =
     Inr \<lparr>chaos_enabled = False, chaos_inject_error_rate = Finite 1,
          chaos_delay_seconds_max = 10\<rparr>"
  by code_simp

lemma config_force_error:
  "get_chaos_config (env_of ''true'' ''1.0'' ''0'') =
     Inr \<lparr>chaos_enabled = True, chaos_inject_error_rate = Finite 1,
          chaos_delay_seconds_max = 0\<rparr>"
  by code_simp

lemma config_no_error_no_delay:
  "get_chaos_config (env_of ''true'' ''0.0'' ''0'') =
     Inr \<lparr>chaos_enabled = True, chaos_inject_error_rate = Finite 0,
          chaos_delay_seconds_max = 0\<rparr>"
  by code_simp

lemma config_negative_delay:
  "get_chaos_config (env_of ''true'' ''0.0'' ''-3'') =
     Inr \<lparr>chaos_enabled = True, chaos_inject_error_rate = Finite 0,
          chaos_delay_seconds_max = - 3\<rparr>"
  by code_simp

subsection \<open>The disabled injector\<close>

text \<open>
  C1. For every configuration with \<open>enabled = false\<close>, whatever its error rate and maximal
  delay, a call returns normally at once: the result is the normal return, the random
  generator is the one passed in (nothing was drawn), and there is no event (no log call
  and no sleep).
\<close>

theorem disabled_is_noop:
  "get_chaos_config env = Inr cfg \<Longrightarrow> \<not> chaos_enabled cfg \<Longrightarrow>
     inject_chaos_if_enabled env g = (Inr (), g, [])"
  by (simp add: inject_chaos_if_enabled_def)

theorem disabled_is_noop_witness:
  "get_chaos_config (env_of ''false'' ''1.0'' ''10'') =
     Inr \<lparr>chaos_enabled = False, chaos_inject_error_rate = Finite 1,
          chaos_delay_seconds_max = 10\<rparr> \<and>
   inject_chaos_if_enabled (env_of ''false'' ''1.0'' ''10'') (rng_const 7) =
     (Inr (), rng_const 7, [])"
  using disabled_is_noop [OF config_disabled, of "rng_const 7"] config_disabled by simp

subsection \<open>The error branch\<close>

text \<open>
  C2. When the configuration is enabled and its error rate is 1.0, every call raises
  \<open>ChaosException\<close>, whatever the generator produces. The message is
  \<open>Chaos engineering: simulated service failure\<close>, which contains
  \<open>simulated service failure\<close>; the sample \<open>p\<close> drawn lies in \<open>[0, 1)\<close>, one draw was made and
  the only event is the error log.
\<close>

theorem full_error_rate_raises:
  assumes "get_chaos_config env = Inr cfg" "chaos_enabled cfg"
    and "chaos_inject_error_rate cfg = Finite 1"
  shows "\<exists>p. inject_chaos_if_enabled env g =
           (Inl (ChaosException (''Chaos engineering: '' @ ''simulated service failure'')),
            g\<lparr>drawn := drawn g + 1\<rparr>, [error_log cfg (Finite p)]) \<and> 0 \<le> p \<and> p < 1"
proof -
  obtain p where p: "random g = (Finite p, g\<lparr>drawn := drawn g + 1\<rparr>)" "0 \<le> p" "p < 1"
    using random_range by blast
  have "float_lt (Finite p) (chaos_inject_error_rate cfg)"
    using assms(3) p(3) by (simp add: float_lt_Finite)
  then show ?thesis
    using inject_enabled [OF assms(1,2) p(1)] p by auto
qed

theorem full_error_rate_raises_witness:
  "get_chaos_config (env_of ''true'' ''1.0'' ''0'') =
     Inr \<lparr>chaos_enabled = True, chaos_inject_error_rate = Finite 1,
          chaos_delay_seconds_max = 0\<rparr> \<and>
   (\<exists>p. inject_chaos_if_enabled (env_of ''true'' ''1.0'' ''0'') (rng_const 7) =
           (Inl (ChaosException (''Chaos engineering: '' @ ''simulated service failure'')),
            (rng_const 7)\<lparr>drawn := drawn (rng_const 7) + 1\<rparr>,
            [error_log \<lparr>chaos_enabled = True, chaos_inject_error_rate = Finite 1,
                        chaos_delay_seconds_max = 0\<rparr> (Finite p)]) \<and> 0 \<le> p \<and> p < 1)"
  using full_error_rate_raises [OF config_force_error, of "rng_const 7"] config_force_error
  by simp

text \<open>
  C3. No call both raises and delays: it is never the case that the result is an exception
  (of any kind) and that \<open>asyncio.sleep\<close> was called. So a call that raises has not slept,
  and a call that has slept returns normally.
\<close>

theorem error_and_delay_exclusive:
  "\<not> (isl (fst (inject_chaos_if_enabled env g)) \<and>
      sleeps (snd (snd (inject_chaos_if_enabled env g))) \<noteq> [])"
  by (auto simp: inject_chaos_if_enabled_def sleeps_def error_log_def Let_def
      split: sum.splits prod.splits if_splits)

subsection \<open>The delay branch\<close>

text \<open>
  C5. When the configuration is enabled, its error rate is 0.0 and its maximal delay is 0,
  a call returns normally with no event at all (no log call, no sleep); it has drawn one
  sample. The error branch is not taken because the sample is never below 0.
\<close>

theorem zero_rate_zero_delay_returns:
  assumes "get_chaos_config env = Inr cfg" "chaos_enabled cfg"
    and "chaos_inject_error_rate cfg = Finite 0" "chaos_delay_seconds_max cfg = 0"
  shows "inject_chaos_if_enabled env g = (Inr (), g\<lparr>drawn := drawn g + 1\<rparr>, []) \<and>
         \<not> float_lt (fst (random g)) (chaos_inject_error_rate cfg)"
proof -
  obtain p where p: "random g = (Finite p, g\<lparr>drawn := drawn g + 1\<rparr>)" "0 \<le> p" "p < 1"
    using random_range by blast
  have "\<not> float_lt (Finite p) (chaos_inject_error_rate cfg)"
    using assms(3) p(2) by (simp add: float_lt_Finite)
  then show ?thesis
    using inject_enabled [OF assms(1,2) p(1)] assms(4) p(1) by simp
qed

theorem zero_rate_zero_delay_returns_witness:
  "get_chaos_config (env_of ''true'' ''0.0'' ''0'') =
     Inr \<lparr>chaos_enabled = True, chaos_inject_error_rate = Finite 0,
          chaos_delay_seconds_max = 0\<rparr> \<and>
   inject_chaos_if_enabled (env_of ''true'' ''0.0'' ''0'') (rng_const 7) =
     (Inr (), (rng_const 7)\<lparr>drawn := drawn (rng_const 7) + 1\<rparr>, []) \<and>
   \<not> float_lt (fst (random (rng_const 7))) (Finite 0)"
  using zero_rate_zero_delay_returns [OF config_no_error_no_delay, of "rng_const 7"]
    config_no_error_no_delay
  by simp

text \<open>
  C9. When the configuration is enabled, the sample is not below the error rate, and the
  maximal delay is zero or negative (the loader accepts \<open>-3\<close> as it accepts \<open>0\<close>), the
  delay branch is skipped: the call returns normally with no sleep and no log call. The
  result does not depend on the delay, so every delay that is not positive behaves as 0.
\<close>

theorem nonpositive_delay_skipped:
  assumes "get_chaos_config env = Inr cfg" "chaos_enabled cfg"
    and "\<not> float_lt (fst (random g)) (chaos_inject_error_rate cfg)"
    and "chaos_delay_seconds_max cfg \<le> 0"
  shows "inject_chaos_if_enabled env g = (Inr (), g\<lparr>drawn := drawn g + 1\<rparr>, [])"
proof -
  obtain p where p: "random g = (Finite p, g\<lparr>drawn := drawn g + 1\<rparr>)"
    using random_range by blast
  then show ?thesis
    using inject_enabled [OF assms(1,2) p] assms(3,4) by simp
qed

theorem nonpositive_delay_skipped_witness:
  "get_chaos_config (env_of ''true'' ''0.0'' ''-3'') =
     Inr \<lparr>chaos_enabled = True, chaos_inject_error_rate = Finite 0,
          chaos_delay_seconds_max = - 3\<rparr> \<and>
   \<not> float_lt (fst (random (rng_const 7))) (Finite 0) \<and>
   inject_chaos_if_enabled (env_of ''true'' ''0.0'' ''-3'') (rng_const 7) =
     (Inr (), (rng_const 7)\<lparr>drawn := drawn (rng_const 7) + 1\<rparr>, [])"
proof -
  have nlt: "\<not> float_lt (fst (random (rng_const 7))) (Finite 0)"
    by (simp add: random_def float_lt_Finite)
  show ?thesis
    using nonpositive_delay_skipped [OF config_negative_delay, of "rng_const 7"]
      config_negative_delay nlt
    by simp
qed

end
